theory Spec2Isabelle
  imports Main "HOL-Library.Product_Lexorder" "HOL-Library.Multiset"
begin

section \<open>Tables\<close>

text \<open>
  The module \<^verbatim>\<open>cross_sectional_time_series.py\<close> has one function, \<^verbatim>\<open>data_creator\<close>,
  written against the table library it imports. This section gives the table operations
  it calls, with the defaults the call sites leave in place; the next section is the
  function itself, line by line.

  A table is a list of column names and a list of rows. A cell is null, a calendar date
  (days since 1970-01-01, the type a \<^verbatim>\<open>YYYY-MM-DD\<close> column is read as), a timestamp in
  milliseconds, a 64-bit integer, or a value of another type. The code looks at the
  cells of the date column only, so the type of the other values is a parameter.

  The code raises nothing itself. A lookup by name raises \<^verbatim>\<open>KeyError\<close>; what the
  library raises inside an operation is an \<^verbatim>\<open>ArrowException\<close>, whose subclasses the
  model does not tell apart.
\<close>

datatype error = KeyError | ArrowException

datatype 'v cell = Null | Date int | Timestamp int | Int64 int | Value 'v

record 'v table =
  column_names :: "string list"
  rows :: "'v cell list list"

text \<open>A table is rectangular: every row has one cell per column.\<close>

definition wf_table :: "'v table \<Rightarrow> bool" where
  "wf_table t = list_all (\<lambda>r. length r = length (column_names t)) (rows t)"

text \<open>\<^verbatim>\<open>len(table)\<close>: the number of rows.\<close>

definition num_rows :: "'v table \<Rightarrow> nat" where
  "num_rows t = length (rows t)"

text \<open>
  Looking a column up by name succeeds only when exactly one column has that name: a
  missing name and a repeated name are both refused.
\<close>

definition get_field_index :: "string list \<Rightarrow> string \<Rightarrow> nat option" where
  "get_field_index ns n =
     (case filter (\<lambda>i. ns ! i = n) [0..<length ns] of
        [i] \<Rightarrow> Some i
      | _ \<Rightarrow> None)"

text \<open>\<^verbatim>\<open>table[name]\<close>\<close>

definition column :: "'v table \<Rightarrow> string \<Rightarrow> error + 'v cell list" where
  "column t n =
     (case get_field_index (column_names t) n of
        None \<Rightarrow> Inl KeyError
      | Some i \<Rightarrow> Inr (map (\<lambda>r. r ! i) (rows t)))"

text \<open>Running a fallible function over a column: the first failure is the result.\<close>

fun map_result :: "('a \<Rightarrow> error + 'b) \<Rightarrow> 'a list \<Rightarrow> error + 'b list" where
  "map_result f [] = Inr []"
| "map_result f (x # xs) =
     (case f x of
        Inl e \<Rightarrow> Inl e
      | Inr y \<Rightarrow> (case map_result f xs of Inl e \<Rightarrow> Inl e | Inr ys \<Rightarrow> Inr (y # ys)))"

text \<open>
  \<^verbatim>\<open>pyarrow.compute.cast(column, pyarrow.timestamp("ms"))\<close>: a date becomes the timestamp
  of its midnight, a timestamp stays, an integer is read as a count of milliseconds,
  null stays null. A column of another type is refused, as the library refuses a column
  of floating-point numbers or of booleans; a column of strings, which the library would
  parse, is outside the model.
\<close>

definition ms_per_day :: int where
  "ms_per_day = 86400000"

fun cast_timestamp_ms :: "'v cell \<Rightarrow> error + 'v cell" where
  "cast_timestamp_ms Null = Inr Null"
| "cast_timestamp_ms (Date d) = Inr (Timestamp (d * ms_per_day))"
| "cast_timestamp_ms (Timestamp t) = Inr (Timestamp t)"
| "cast_timestamp_ms (Int64 i) = Inr (Timestamp i)"
| "cast_timestamp_ms (Value v) = Inl ArrowException"

definition cast :: "'v cell list \<Rightarrow> error + 'v cell list" where
  "cast col = map_result cast_timestamp_ms col"

text \<open>\<^verbatim>\<open>table.set_column(i, name, column)\<close> replaces the column at position \<open>i\<close>.\<close>

definition set_column :: "'v table \<Rightarrow> nat \<Rightarrow> string \<Rightarrow> 'v cell list \<Rightarrow> error + 'v table" where
  "set_column t i n col =
     (if i < length (column_names t)
      then Inr \<lparr>column_names = (column_names t)[i := n],
                rows = map (\<lambda>(r, c). r[i := c]) (zip (rows t) col)\<rparr>
      else Inl ArrowException)"

text \<open>
  \<^verbatim>\<open>greater_equal(column, scalar(date))\<close> and \<^verbatim>\<open>less_equal\<close>: the date scalar is cast to
  the column's type, the timestamp of its midnight. A null cell compares to null. The
  second argument is the date, in days. The library has no comparison of a date with an
  integer or with a value of another type.
\<close>

fun greater_equal_cell :: "int \<Rightarrow> 'v cell \<Rightarrow> error + bool option" where
  "greater_equal_cell d Null = Inr None"
| "greater_equal_cell d (Date x) = Inr (Some (d \<le> x))"
| "greater_equal_cell d (Timestamp t) = Inr (Some (d * ms_per_day \<le> t))"
| "greater_equal_cell d (Int64 i) = Inl ArrowException"
| "greater_equal_cell d (Value v) = Inl ArrowException"

fun less_equal_cell :: "int \<Rightarrow> 'v cell \<Rightarrow> error + bool option" where
  "less_equal_cell d Null = Inr None"
| "less_equal_cell d (Date x) = Inr (Some (x \<le> d))"
| "less_equal_cell d (Timestamp t) = Inr (Some (t \<le> d * ms_per_day))"
| "less_equal_cell d (Int64 i) = Inl ArrowException"
| "less_equal_cell d (Value v) = Inl ArrowException"

definition greater_equal :: "'v cell list \<Rightarrow> int \<Rightarrow> error + bool option list" where
  "greater_equal col d = map_result (greater_equal_cell d) col"

definition less_equal :: "'v cell list \<Rightarrow> int \<Rightarrow> error + bool option list" where
  "less_equal col d = map_result (less_equal_cell d) col"

text \<open>\<^verbatim>\<open>and_\<close> (here \<open>and_column\<close>) is the plain conjunction: null when either side is null.\<close>

fun and_cell :: "bool option \<Rightarrow> bool option \<Rightarrow> bool option" where
  "and_cell (Some a) (Some b) = Some (a \<and> b)"
| "and_cell _ _ = None"

definition and_column :: "bool option list \<Rightarrow> bool option list \<Rightarrow> bool option list" where
  "and_column xs ys = map (\<lambda>(a, b). and_cell a b) (zip xs ys)"

text \<open>\<^verbatim>\<open>table.filter(mask)\<close> keeps the rows whose mask is true; false and null drop the row.\<close>

definition filter_table :: "'v table \<Rightarrow> bool option list \<Rightarrow> 'v table" where
  "filter_table t selection =
     t\<lparr>rows := map fst (filter (\<lambda>(r, m). m = Some True) (zip (rows t) selection))\<rparr>"

text \<open>\<^verbatim>\<open>table.select(names)\<close>\<close>

definition select :: "'v table \<Rightarrow> string list \<Rightarrow> error + 'v table" where
  "select t ns =
     (case those (map (get_field_index (column_names t)) ns) of
        None \<Rightarrow> Inl KeyError
      | Some idx \<Rightarrow>
          Inr \<lparr>column_names = ns, rows = map (\<lambda>r. map (\<lambda>i. r ! i) idx) (rows t)\<rparr>)"

text \<open>\<^verbatim>\<open>table.rename_columns(names)\<close>\<close>

definition rename_columns :: "'v table \<Rightarrow> string list \<Rightarrow> error + 'v table" where
  "rename_columns t ns =
     (if length ns = length (column_names t)
      then Inr (t\<lparr>column_names := ns\<rparr>)
      else Inl ArrowException)"

text \<open>\<^verbatim>\<open>table.combine_chunks()\<close> changes the memory layout only.\<close>

definition combine_chunks :: "'v table \<Rightarrow> 'v table" where
  "combine_chunks t = t"

text \<open>
  \<^verbatim>\<open>left.join(right, keys=k, right_suffix=s)\<close>. The call sites pass no \<^verbatim>\<open>join_type\<close>,
  so the join is the library's default, the left outer join: every left row is kept,
  once per right row with the same key, or once with nulls when no right row has its
  key; a right row whose key no left row has is dropped. Null keys match nothing. The
  result has the left columns, then the right columns without the key; a right column
  whose name a left column has gets the suffix. The library promises no row order. The
  model lists the left rows in their order and, under one left row, its matches from the
  last right row to the first; the sort that follows every join fixes the order of the
  rows with different dates, and nothing below depends on the order of the others.
\<close>

definition drop_index :: "nat \<Rightarrow> 'a list \<Rightarrow> 'a list" where
  "drop_index i xs = take i xs @ drop (Suc i) xs"

definition key_match :: "'v cell \<Rightarrow> 'v cell \<Rightarrow> bool" where
  "key_match a b = (a \<noteq> Null \<and> a = b)"

definition join_rows :: "nat \<Rightarrow> nat \<Rightarrow> nat \<Rightarrow> 'v cell list list \<Rightarrow> 'v cell list \<Rightarrow> 'v cell list list" where
  "join_rows li ri n rrows l =
     (case filter (\<lambda>r. key_match (l ! li) (r ! ri)) rrows of
        [] \<Rightarrow> [l @ replicate n Null]
      | ms \<Rightarrow> map (\<lambda>r. l @ drop_index ri r) (rev ms))"

definition join :: "'v table \<Rightarrow> 'v table \<Rightarrow> string \<Rightarrow> string \<Rightarrow> error + 'v table" where
  "join left right keys right_suffix =
     (case get_field_index (column_names left) keys of
        None \<Rightarrow> Inl ArrowException
      | Some li \<Rightarrow>
         (case get_field_index (column_names right) keys of
            None \<Rightarrow> Inl ArrowException
          | Some ri \<Rightarrow>
              let right_columns = drop_index ri (column_names right)
              in Inr \<lparr>column_names =
                         column_names left @
                         map (\<lambda>n. if n \<in> set (column_names left) then n @ right_suffix else n)
                           right_columns,
                       rows = concat (map (join_rows li ri (length right_columns) (rows right))
                                        (rows left))\<rparr>))"

text \<open>
  \<^verbatim>\<open>table.sort_by([(name, "ascending")])\<close>: a stable sort on one column, nulls last. The
  code sorts on the date column only; cells of another type keep their order.
\<close>

fun sort_rank :: "'v cell \<Rightarrow> nat \<times> int" where
  "sort_rank Null = (1, 0)"
| "sort_rank (Date d) = (0, d)"
| "sort_rank (Timestamp t) = (0, t)"
| "sort_rank (Int64 i) = (0, i)"
| "sort_rank (Value v) = (0, 0)"

definition sort_by :: "'v table \<Rightarrow> string \<Rightarrow> error + 'v table" where
  "sort_by t n =
     (case get_field_index (column_names t) n of
        None \<Rightarrow> Inl ArrowException
      | Some i \<Rightarrow> Inr (t\<lparr>rows := sort_key (\<lambda>r. sort_rank (r ! i)) (rows t)\<rparr>))"

text \<open>
  A Python dict keeps its keys in insertion order; assigning to a key that is present
  replaces the value in place.
\<close>

fun dict_setitem :: "('k \<times> 'a) list \<Rightarrow> 'k \<Rightarrow> 'a \<Rightarrow> ('k \<times> 'a) list" where
  "dict_setitem [] k v = [(k, v)]"
| "dict_setitem ((k', v') # kvs) k v =
     (if k' = k then (k, v) # kvs else (k', v') # dict_setitem kvs k v)"

section \<open>The function \<^verbatim>\<open>data_creator\<close>\<close>

text \<open>
  Lines 44 to 48, for one ticker's table: the date column is cast to timestamps and the
  cast column is put at position 0 under the date column's name.
\<close>

definition date_as_timestamp :: "string \<Rightarrow> 'v table \<Rightarrow> error + 'v table" where
  "date_as_timestamp column_date_tag time_series_table =
     (case column time_series_table column_date_tag of Inl e \<Rightarrow> Inl e | Inr dates \<Rightarrow>
      case cast dates of Inl e \<Rightarrow> Inl e | Inr stamps \<Rightarrow>
      set_column time_series_table 0 column_date_tag stamps)"

text \<open>Lines 51 to 55: the mask of the two comparisons, and the rows it keeps.\<close>

definition filtered_table :: "int \<Rightarrow> int \<Rightarrow> string \<Rightarrow> 'v table \<Rightarrow> error + 'v table" where
  "filtered_table start_date end_date column_date_tag time_series_table =
     (case date_as_timestamp column_date_tag time_series_table of Inl e \<Rightarrow> Inl e | Inr tbl \<Rightarrow>
      case column tbl column_date_tag of Inl e \<Rightarrow> Inl e | Inr col \<Rightarrow>
      case greater_equal col start_date of Inl e \<Rightarrow> Inl e | Inr ge \<Rightarrow>
      case less_equal col end_date of Inl e \<Rightarrow> Inl e | Inr le \<Rightarrow>
      Inr (filter_table tbl (and_column ge le)))"

text \<open>Lines 58 and 59: the date and the feature, the feature renamed to the ticker.\<close>

definition ticker_data ::
  "int \<Rightarrow> int \<Rightarrow> string \<Rightarrow> string \<Rightarrow> string \<Rightarrow> 'v table \<Rightarrow> error + 'v table" where
  "ticker_data start_date end_date column_date_tag feature ticker time_series_table =
     (case filtered_table start_date end_date column_date_tag time_series_table of
        Inl e \<Rightarrow> Inl e | Inr filtered \<Rightarrow>
      case select filtered [column_date_tag, feature] of Inl e \<Rightarrow> Inl e | Inr data \<Rightarrow>
      rename_columns data [column_date_tag, ticker])"

text \<open>Lines 62 to 78: the first table starts the result, a later one is joined with it.\<close>

definition accumulate :: "string \<Rightarrow> 'v table option \<Rightarrow> 'v table \<Rightarrow> error + 'v table" where
  "accumulate column_date_tag result data =
     (case result of
        None \<Rightarrow> Inr (combine_chunks data)
      | Some res \<Rightarrow>
          if num_rows res > num_rows data
          then join res data column_date_tag ''_r''
          else join data res column_date_tag ''_r'')"

text \<open>Lines 41 to 79, the loop over the tickers; \<open>result\<close> is \<open>None\<close> before the first.\<close>

fun ticker_loop ::
  "int \<Rightarrow> int \<Rightarrow> string \<Rightarrow> string \<Rightarrow> (string \<times> 'v table) list \<Rightarrow> 'v table option
     \<Rightarrow> error + 'v table option" where
  "ticker_loop start_date end_date column_date_tag feature [] result = Inr result"
| "ticker_loop start_date end_date column_date_tag feature ((ticker, tst) # items) result =
     (case ticker_data start_date end_date column_date_tag feature ticker tst of
        Inl e \<Rightarrow> Inl e | Inr data \<Rightarrow>
      case accumulate column_date_tag result data of Inl e \<Rightarrow> Inl e | Inr joined \<Rightarrow>
      case sort_by joined column_date_tag of Inl e \<Rightarrow> Inl e | Inr ordered \<Rightarrow>
      ticker_loop start_date end_date column_date_tag feature items (Some ordered))"

text \<open>Lines 39 to 82, the loop over the features, and the function.\<close>

fun feature_loop ::
  "int \<Rightarrow> int \<Rightarrow> string \<Rightarrow> (string \<times> 'v table) list \<Rightarrow> string list
     \<Rightarrow> (string \<times> 'v table option) list \<Rightarrow> error + (string \<times> 'v table option) list" where
  "feature_loop start_date end_date column_date_tag dict [] features_dict = Inr features_dict"
| "feature_loop start_date end_date column_date_tag dict (feature # features) features_dict =
     (case ticker_loop start_date end_date column_date_tag feature dict None of
        Inl e \<Rightarrow> Inl e
      | Inr result \<Rightarrow>
          feature_loop start_date end_date column_date_tag dict features
            (dict_setitem features_dict feature result))"

definition data_creator ::
  "int \<Rightarrow> int \<Rightarrow> string \<Rightarrow> (string \<times> 'v table) list \<Rightarrow> string list
     \<Rightarrow> error + (string \<times> 'v table option) list" where
  "data_creator start_date end_date column_date_tag time_series_data_dictionary
       weighted_scoring_features_tuple =
     feature_loop start_date end_date column_date_tag time_series_data_dictionary
       weighted_scoring_features_tuple []"

section \<open>What the properties are stated with\<close>

text \<open>
  A cell lies in the date range when it is a timestamp between the midnight of the start
  date and the midnight of the end date, both included.
\<close>

fun in_date_range :: "int \<Rightarrow> int \<Rightarrow> 'v cell \<Rightarrow> bool" where
  "in_date_range s e (Timestamp t) = (s * ms_per_day \<le> t \<and> t \<le> e * ms_per_day)"
| "in_date_range s e _ = False"

text \<open>Every table of the mapping is rectangular.\<close>

definition wf_dict :: "(string \<times> 'v table) list \<Rightarrow> bool" where
  "wf_dict dict = list_all (\<lambda>(ticker, t). wf_table t) dict"

text \<open>
  No ticker has two rows inside the range on the same date. The cast date column is at
  position 0 of the filtered table.
\<close>

definition distinct_dates :: "int \<Rightarrow> int \<Rightarrow> string \<Rightarrow> (string \<times> 'v table) list \<Rightarrow> bool" where
  "distinct_dates s e tag dict =
     list_all (\<lambda>(ticker, t).
        case filtered_table s e tag t of
          Inl err \<Rightarrow> True
        | Inr ft \<Rightarrow> distinct (map (\<lambda>r. r ! 0) (rows ft))) dict"

text \<open>
  The join that the comments at lines 66 and 73 name, written from the specification's
  words: rows of either side are kept, the columns of the missing side are null, rows
  present in both are merged. It is the left outer join followed by the right rows that
  no left row matches, their key in the key column.
\<close>

definition full_outer_join_spec ::
  "'v table \<Rightarrow> 'v table \<Rightarrow> string \<Rightarrow> string \<Rightarrow> error + 'v table" where
  "full_outer_join_spec left right keys right_suffix =
     (case get_field_index (column_names left) keys of
        None \<Rightarrow> Inl ArrowException
      | Some li \<Rightarrow>
         (case get_field_index (column_names right) keys of
            None \<Rightarrow> Inl ArrowException
          | Some ri \<Rightarrow>
              let right_columns = drop_index ri (column_names right)
              in Inr \<lparr>column_names =
                         column_names left @
                         map (\<lambda>n. if n \<in> set (column_names left) then n @ right_suffix else n)
                           right_columns,
                       rows =
                         concat (map (join_rows li ri (length right_columns) (rows right))
                                   (rows left)) @
                         map (\<lambda>r. (replicate (length (column_names left)) Null)[li := r ! ri] @
                                   drop_index ri r)
                           (filter (\<lambda>r. \<not> list_ex (\<lambda>l. key_match (l ! li) (r ! ri)) (rows left))
                              (rows right))\<rparr>))"

text \<open>
  The tables of the examples. Day 18262 is 2020-01-01, so 18263, 18264, 18267 and 18270
  are the 2nd, 3rd, 6th and 9th of January 2020, and 18271 is the 10th.
\<close>

definition AAA :: "int table" where
  "AAA = \<lparr>column_names = [''m_date'', ''price''],
          rows = [[Date 18263, Value 10], [Date 18264, Value 11]]\<rparr>"

definition BBB :: "int table" where
  "BBB = \<lparr>column_names = [''m_date'', ''price''],
          rows = [[Date 18264, Value 20], [Date 18267, Value 21]]\<rparr>"

definition CCC :: "int table" where
  "CCC = \<lparr>column_names = [''m_date'', ''price''],
          rows = [[Date 18263, Value 30], [Date 18270, Value 31]]\<rparr>"

definition DUP :: "int table" where
  "DUP = \<lparr>column_names = [''m_date'', ''price''],
          rows = [[Date 18263, Value 10], [Date 18263, Value 11]]\<rparr>"

text \<open>The projected tables of \<open>AAA\<close> and \<open>BBB\<close>, as the loop joins them.\<close>

definition AAA_data :: "int table" where
  "AAA_data = \<lparr>column_names = [''m_date'', ''AAA''],
               rows = [[Timestamp 1577923200000, Value 10],
                       [Timestamp 1578009600000, Value 11]]\<rparr>"

definition BBB_data :: "int table" where
  "BBB_data = \<lparr>column_names = [''m_date'', ''BBB''],
               rows = [[Timestamp 1578009600000, Value 20],
                       [Timestamp 1578268800000, Value 21]]\<rparr>"

text \<open>
  What the loop over the tickers keeps true of the accumulated table: it is rectangular,
  the date tag names the column at position 0 and no other, and every date is a timestamp
  inside the range.
\<close>

definition acc_inv :: "int \<Rightarrow> int \<Rightarrow> string \<Rightarrow> 'v table \<Rightarrow> bool" where
  "acc_inv s e tag t \<longleftrightarrow>
     wf_table t \<and> get_field_index (column_names t) tag = Some 0
     \<and> list_all (\<lambda>r. in_date_range s e (r ! 0)) (rows t)"

text \<open>A ticker's table has no row inside the date range.\<close>

definition no_rows_in_range :: "int \<Rightarrow> int \<Rightarrow> string \<Rightarrow> 'v table \<Rightarrow> bool" where
  "no_rows_in_range s e tag t =
     (case filtered_table s e tag t of Inl err \<Rightarrow> False | Inr ft \<Rightarrow> rows ft = [])"

text \<open>
  Every column after the first whose name is in \<open>E\<close> holds null in every row. The loop
  keeps this true for the tickers that have no row inside the range.
\<close>

definition null_columns :: "string set \<Rightarrow> 'v table \<Rightarrow> bool" where
  "null_columns E t \<longleftrightarrow>
     (\<forall>i. 0 < i \<longrightarrow> i < length (column_names t) \<longrightarrow> column_names t ! i \<in> E
        \<longrightarrow> (\<forall>row\<in>set (rows t). row ! i = Null))"

text \<open>A table with one row before the range and one row without a date.\<close>

definition OUT :: "int table" where
  "OUT = \<lparr>column_names = [''m_date'', ''price''],
          rows = [[Date 18000, Value 5], [Null, Value 6]]\<rparr>"




section \<open>Looking columns up, and the small operations\<close>

lemma get_field_index_filter:
  "get_field_index ns n = Some i \<Longrightarrow> filter (\<lambda>j. ns ! j = n) [0..<length ns] = [i]"
  by (auto simp: get_field_index_def split: list.splits)

lemma get_field_index_SomeD:
  assumes "get_field_index ns n = Some i"
  shows "i < length ns" and "ns ! i = n" and "\<And>j. j < length ns \<Longrightarrow> ns ! j = n \<Longrightarrow> j = i"
proof -
  have "set (filter (\<lambda>j. ns ! j = n) [0..<length ns]) = {i}"
    using get_field_index_filter [OF assms] by simp
  then have eq: "{j. j < length ns \<and> ns ! j = n} = {i}"
    by auto
  then have "i \<in> {j. j < length ns \<and> ns ! j = n}"
    by simp
  then show "i < length ns" and "ns ! i = n"
    by simp_all
  fix j assume "j < length ns" and "ns ! j = n"
  then have "j \<in> {j. j < length ns \<and> ns ! j = n}"
    by simp
  with eq show "j = i"
    by simp
qed

lemma get_field_index_first:
  assumes "get_field_index (n # ns) n = Some i"
  shows "i = 0" and "n \<notin> set ns"
proof -
  show i: "i = 0"
    using get_field_index_SomeD(3) [OF assms, of 0] by simp
  show "n \<notin> set ns"
  proof
    assume "n \<in> set ns"
    then obtain j where "j < length ns" and "ns ! j = n"
      by (auto simp: in_set_conv_nth)
    then have "Suc j = i"
      using get_field_index_SomeD(3) [OF assms, of "Suc j"] by simp
    with i show False
      by simp
  qed
qed

lemma get_field_index_at_0:
  assumes "get_field_index ns n = Some i" and "ns \<noteq> []" and "ns ! 0 = n"
  shows "i = 0"
  using get_field_index_SomeD(3) [OF assms(1), of 0] assms(2,3) by auto

lemma map_result_list_all2:
  "map_result f xs = Inr ys \<Longrightarrow> list_all2 (\<lambda>x y. f x = Inr y) xs ys"
  by (induction xs arbitrary: ys) (auto split: sum.splits)

lemma map_result_total:
  "(\<And>x. x \<in> set xs \<Longrightarrow> f x = Inr (g x)) \<Longrightarrow> map_result f xs = Inr (map g xs)"
  by (induction xs) auto

lemma filter_zip_map:
  "map fst (filter (\<lambda>(r, m). m = Some True) (zip rs (map g rs))) = filter (\<lambda>r. g r = Some True) rs"
  by (induction rs) auto

lemma map_zip_same:
  "map h (zip (map f xs) (map g xs)) = map (\<lambda>x. h (f x, g x)) xs"
  by (induction xs) auto

lemma cast_timestamp_ms_cases:
  "cast_timestamp_ms c = Inr c' \<Longrightarrow> c' = Null \<or> (\<exists>t. c' = Timestamp t)"
  by (cases c) auto

lemma wf_tableD:
  "wf_table t \<Longrightarrow> r \<in> set (rows t) \<Longrightarrow> length r = length (column_names t)"
  by (simp add: wf_table_def list_all_iff)

lemma wf_tableI:
  "(\<And>r. r \<in> set (rows t) \<Longrightarrow> length r = length (column_names t)) \<Longrightarrow> wf_table t"
  by (simp add: wf_table_def list_all_iff)

section \<open>The date filter\<close>

lemma date_as_timestamp_shape:
  assumes wf: "wf_table t" and ok: "date_as_timestamp tag t = Inr tbl"
  shows "column_names tbl = (column_names t)[0 := tag]"
    and "column_names t \<noteq> []"
    and "wf_table tbl"
    and "\<And>r. r \<in> set (rows tbl) \<Longrightarrow> r ! 0 = Null \<or> (\<exists>d. r ! 0 = Timestamp d)"
proof -
  from ok obtain dates stamps where
    dates: "column t tag = Inr dates" and
    stamps: "cast dates = Inr stamps" and
    set: "set_column t 0 tag stamps = Inr tbl"
    by (auto simp: date_as_timestamp_def split: sum.splits)
  from set have ne: "0 < length (column_names t)" and
    tbl: "tbl = \<lparr>column_names = (column_names t)[0 := tag],
                 rows = map (\<lambda>(r, c). r[0 := c]) (zip (rows t) stamps)\<rparr>"
    by (auto simp: set_column_def split: if_splits)
  from tbl show "column_names tbl = (column_names t)[0 := tag]" by simp
  from ne show "column_names t \<noteq> []" by simp
  have all: "list_all2 (\<lambda>x y. cast_timestamp_ms x = Inr y) dates stamps"
    using stamps by (simp add: cast_def map_result_list_all2)
  have st: "\<And>c. c \<in> set stamps \<Longrightarrow> c = Null \<or> (\<exists>d. c = Timestamp d)"
  proof -
    fix c assume "c \<in> set stamps"
    then obtain x where "cast_timestamp_ms x = Inr c"
      using all by (auto simp: list_all2_conv_all_nth in_set_conv_nth)
    then show "c = Null \<or> (\<exists>d. c = Timestamp d)"
      by (rule cast_timestamp_ms_cases)
  qed
  have row: "\<And>row. row \<in> set (rows tbl) \<Longrightarrow>
      \<exists>r c. r \<in> set (rows t) \<and> c \<in> set stamps \<and> row = r[0 := c]"
    using tbl by (auto dest: set_zip_leftD set_zip_rightD)
  show "wf_table tbl"
  proof (rule wf_tableI)
    fix row assume "row \<in> set (rows tbl)"
    with row obtain r c where "r \<in> set (rows t)" and "row = r[0 := c]" by blast
    then show "length row = length (column_names tbl)"
      using wf tbl by (simp add: wf_tableD)
  qed
  fix row assume "row \<in> set (rows tbl)"
  with row obtain r c where r: "r \<in> set (rows t)" and c: "c \<in> set stamps" and eq: "row = r[0 := c]"
    by blast
  from r wf ne have "0 < length r" by (simp add: wf_tableD)
  with eq have "row ! 0 = c" by simp
  with st [OF c] show "row ! 0 = Null \<or> (\<exists>d. row ! 0 = Timestamp d)" by simp
qed

lemma and_cell_in_range:
  assumes "c = Null \<or> (\<exists>d. c = Timestamp d)"
  shows "greater_equal_cell s c = Inr (case c of Timestamp t \<Rightarrow> Some (s * ms_per_day \<le> t) | _ \<Rightarrow> None)"
    and "less_equal_cell e c = Inr (case c of Timestamp t \<Rightarrow> Some (t \<le> e * ms_per_day) | _ \<Rightarrow> None)"
  using assms by auto

lemma filtered_table_rows:
  assumes wf: "wf_table t" and ok: "filtered_table s e tag t = Inr ft"
  shows "\<exists>tbl. date_as_timestamp tag t = Inr tbl
           \<and> column tbl tag = Inr (map (\<lambda>r. r ! 0) (rows tbl))
           \<and> column_names ft = column_names tbl
           \<and> rows ft = filter (\<lambda>r. in_date_range s e (r ! 0)) (rows tbl)"
proof -
  from ok obtain tbl col ge le where
    tbl: "date_as_timestamp tag t = Inr tbl" and
    col: "column tbl tag = Inr col" and
    ge: "greater_equal col s = Inr ge" and
    le: "less_equal col e = Inr le" and
    ft: "ft = filter_table tbl (and_column ge le)"
    by (auto simp: filtered_table_def split: sum.splits)
  note shape = date_as_timestamp_shape [OF wf tbl]
  from col obtain i where i: "get_field_index (column_names tbl) tag = Some i"
    and col_eq: "col = map (\<lambda>r. r ! i) (rows tbl)"
    by (auto simp: column_def split: option.splits)
  have "i = 0"
    using get_field_index_at_0 [OF i] shape(1,2) by simp
  with col_eq have col0: "col = map (\<lambda>r. r ! 0) (rows tbl)" by simp
  let ?g = "\<lambda>c. case c of Timestamp t \<Rightarrow> Some (s * ms_per_day \<le> t) | _ \<Rightarrow> None"
  let ?l = "\<lambda>c. case c of Timestamp t \<Rightarrow> Some (t \<le> e * ms_per_day) | _ \<Rightarrow> None"
  have cells: "\<And>c. c \<in> set col \<Longrightarrow> c = Null \<or> (\<exists>d. c = Timestamp d)"
    using shape(4) col0 by auto
  have "greater_equal col s = Inr (map ?g col)"
    unfolding greater_equal_def by (rule map_result_total) (use cells and_cell_in_range(1) in blast)
  with ge have ge_eq: "ge = map ?g col" by simp
  have "less_equal col e = Inr (map ?l col)"
    unfolding less_equal_def by (rule map_result_total) (use cells and_cell_in_range(2) in blast)
  with le have le_eq: "le = map ?l col" by simp
  have mask: "and_column ge le = map (\<lambda>r. and_cell (?g (r ! 0)) (?l (r ! 0))) (rows tbl)"
    by (simp add: and_column_def ge_eq le_eq col0 map_zip_same)
  have pred: "\<And>c. (and_cell (?g c) (?l c) = Some True) = in_date_range s e c"
    subgoal for c by (cases c) auto
    done
  have "rows ft = filter (\<lambda>r. in_date_range s e (r ! 0)) (rows tbl)"
    by (simp add: ft filter_table_def mask filter_zip_map pred)
  moreover have "column_names ft = column_names tbl"
    by (simp add: ft filter_table_def)
  ultimately show ?thesis
    using tbl col col0 by simp
qed

lemma in_date_range_iff:
  "in_date_range s e c \<longleftrightarrow> (\<exists>d. c = Timestamp d \<and> s * ms_per_day \<le> d \<and> d \<le> e * ms_per_day)"
  by (cases c) auto

section \<open>The loop over the features\<close>

lemma dict_setitem_keys:
  "map fst (dict_setitem d k v) = (if k \<in> set (map fst d) then map fst d else map fst d @ [k])"
  by (induction d k v rule: dict_setitem.induct) auto

lemma dict_setitem_set:
  "distinct (map fst d) \<Longrightarrow> (k', v') \<in> set (dict_setitem d k v) \<longleftrightarrow> (if k' = k then v' = v else (k', v') \<in> set d)"
  by (induction d k v rule: dict_setitem.induct) (auto simp: image_iff)

lemma feature_loop_keys:
  "feature_loop s e tag d fs acc = Inr m \<Longrightarrow> map fst acc = rev (remdups (rev seen))
     \<Longrightarrow> map fst m = rev (remdups (rev (seen @ fs)))"
proof (induction fs arbitrary: acc seen)
  case Nil
  then show ?case by simp
next
  case (Cons f fs)
  from Cons.prems(1) obtain r where
    r: "ticker_loop s e tag f d None = Inr r" and
    rest: "feature_loop s e tag d fs (dict_setitem acc f r) = Inr m"
    by (auto split: sum.splits)
  have "set (map fst acc) = set seen"
    using Cons.prems(2) by simp
  then have "map fst (dict_setitem acc f r) = rev (remdups (rev (seen @ [f])))"
    using Cons.prems(2) by (simp add: dict_setitem_keys)
  from Cons.IH [OF rest this] show ?case
    by simp
qed

lemma feature_loop_values:
  "feature_loop s e tag d fs acc = Inr m \<Longrightarrow> distinct (map fst acc)
     \<Longrightarrow> (\<And>f r. (f, r) \<in> set acc \<Longrightarrow> ticker_loop s e tag f d None = Inr r)
     \<Longrightarrow> (f, r) \<in> set m \<Longrightarrow> ticker_loop s e tag f d None = Inr r"
proof (induction fs arbitrary: acc)
  case Nil
  then show ?case by simp
next
  case (Cons g fs)
  from Cons.prems(1) obtain x where
    x: "ticker_loop s e tag g d None = Inr x" and
    rest: "feature_loop s e tag d fs (dict_setitem acc g x) = Inr m"
    by (auto split: sum.splits)
  have dist: "distinct (map fst (dict_setitem acc g x))"
    using Cons.prems(2) by (simp add: dict_setitem_keys)
  have vals: "\<And>f r. (f, r) \<in> set (dict_setitem acc g x) \<Longrightarrow> ticker_loop s e tag f d None = Inr r"
    using Cons.prems(2,3) x by (auto simp: dict_setitem_set split: if_splits)
  from Cons.IH [OF rest dist vals Cons.prems(4)] show ?case .
qed

lemma feature_loop_Inr_iff:
  "(\<exists>m. feature_loop s e tag d fs acc = Inr m) \<longleftrightarrow>
     (\<forall>f\<in>set fs. \<exists>r. ticker_loop s e tag f d None = Inr r)"
proof (induction fs arbitrary: acc)
  case Nil
  then show ?case by simp
next
  case (Cons f fs)
  show ?case
  proof (cases "ticker_loop s e tag f d None")
    case (Inl err)
    then show ?thesis by simp
  next
    case (Inr r)
    then show ?thesis using Cons.IH [of "dict_setitem acc f r"] by simp
  qed
qed

lemma feature_loop_Inl:
  "feature_loop s e tag d fs acc = Inl err \<Longrightarrow> \<exists>f\<in>set fs. ticker_loop s e tag f d None = Inl err"
  by (induction fs arbitrary: acc) (auto split: sum.splits)

lemma dict_setitem_None:
  "dict_setitem (map (\<lambda>f. (f, None)) ks) f None =
     map (\<lambda>f. (f, None)) (if f \<in> set ks then ks else ks @ [f])"
  by (induction ks) auto

lemma feature_loop_no_tickers:
  "feature_loop s e tag [] fs (map (\<lambda>f. (f, None)) (rev (remdups (rev seen)))) =
     Inr (map (\<lambda>f. (f, None)) (rev (remdups (rev (seen @ fs)))))"
proof (induction fs arbitrary: seen)
  case Nil
  then show ?case by simp
next
  case (Cons f fs)
  let ?acc = "map (\<lambda>f. (f, None :: 'a table option)) (rev (remdups (rev seen)))"
  have a: "dict_setitem ?acc f None = map (\<lambda>f. (f, None)) (rev (remdups (rev (seen @ [f]))))"
    by (simp add: dict_setitem_None)
  have "feature_loop s e tag [] (f # fs) ?acc = feature_loop s e tag [] fs (dict_setitem ?acc f None)"
    by simp
  also have "\<dots> = feature_loop s e tag [] fs (map (\<lambda>f. (f, None)) (rev (remdups (rev (seen @ [f])))))"
    by (simp only: a)
  also have "\<dots> = Inr (map (\<lambda>f. (f, None)) (rev (remdups (rev ((seen @ [f]) @ fs)))))"
    by (rule Cons.IH)
  finally show ?case
    by simp
qed

section \<open>The projected table of a ticker\<close>

lemma ticker_data_names:
  "ticker_data s e tag f k t = Inr d \<Longrightarrow> column_names d = [tag, k]"
  by (auto simp: ticker_data_def rename_columns_def split: sum.splits if_splits)

lemma select_two:
  assumes "select t [a, b] = Inr d"
  shows "\<exists>i j. get_field_index (column_names t) a = Some i
           \<and> get_field_index (column_names t) b = Some j
           \<and> rows d = map (\<lambda>r. [r ! i, r ! j]) (rows t)"
  using assms by (auto simp: select_def split: option.splits)

lemma ticker_data_rows:
  assumes wf: "wf_table t" and ok: "ticker_data s e tag f k t = Inr d"
  shows "\<exists>ft j. filtered_table s e tag t = Inr ft
           \<and> rows d = map (\<lambda>r. [r ! 0, r ! j]) (rows ft)
           \<and> (\<forall>r\<in>set (rows ft). in_date_range s e (r ! 0))"
proof -
  from ok obtain ft data where
    ft: "filtered_table s e tag t = Inr ft" and
    sel: "select ft [tag, f] = Inr data" and
    ren: "rename_columns data [tag, k] = Inr d"
    by (auto simp: ticker_data_def split: sum.splits)
  from filtered_table_rows [OF wf ft] obtain tbl where
    tbl: "date_as_timestamp tag t = Inr tbl" and
    names: "column_names ft = column_names tbl" and
    rows: "rows ft = filter (\<lambda>r. in_date_range s e (r ! 0)) (rows tbl)"
    by blast
  note shape = date_as_timestamp_shape [OF wf tbl]
  from select_two [OF sel] obtain i j where
    i: "get_field_index (column_names ft) tag = Some i" and
    data: "rows data = map (\<lambda>r. [r ! i, r ! j]) (rows ft)"
    by blast
  have "i = 0"
    using get_field_index_at_0 [OF i] names shape(1,2) by simp
  moreover from ren have "rows d = rows data"
    by (auto simp: rename_columns_def split: if_splits)
  ultimately have "rows d = map (\<lambda>r. [r ! 0, r ! j]) (rows ft)"
    using data by simp
  with ft rows show ?thesis
    by auto
qed

lemma ticker_data_inv:
  assumes wf: "wf_table t" and ok: "ticker_data s e tag f k t = Inr d"
  shows "wf_table d" and "list_all (\<lambda>r. in_date_range s e (r ! 0)) (rows d)"
  using ticker_data_rows [OF wf ok] ticker_data_names [OF ok]
  by (auto simp: wf_table_def list_all_iff)

lemma ticker_data_keys:
  assumes wf: "wf_table t" and ok: "ticker_data s e tag f k t = Inr d"
    and ft: "filtered_table s e tag t = Inr ft"
  shows "map (\<lambda>r. r ! 0) (rows d) = map (\<lambda>r. r ! 0) (rows ft)"
  using ticker_data_rows [OF wf ok] ft by auto

section \<open>The join and the sort\<close>

lemma sort_by_Inr:
  assumes "sort_by t k = Inr t'"
  shows "\<exists>i. get_field_index (column_names t) k = Some i
           \<and> t' = t\<lparr>rows := sort_key (\<lambda>r. sort_rank (r ! i)) (rows t)\<rparr>"
  using assms by (auto simp: sort_by_def split: option.splits)

lemma length_drop_index: "i < length xs \<Longrightarrow> length (drop_index i xs) = length xs - 1"
  by (auto simp: drop_index_def)

lemma join_rows_form:
  assumes "row \<in> set (join_rows li ri n rrows x)"
  shows "\<exists>z. row = x @ z \<and> (z = replicate n Null \<or> (\<exists>y\<in>set rrows. z = drop_index ri y))"
proof (cases "filter (\<lambda>r. key_match (x ! li) (r ! ri)) rrows")
  case Nil
  with assms show ?thesis by (simp add: join_rows_def)
next
  case (Cons m ms)
  with assms obtain y where "y \<in> set (m # ms)" and "row = x @ drop_index ri y"
    by (auto simp: join_rows_def)
  moreover have "set (m # ms) \<subseteq> set rrows"
    using Cons [symmetric] by simp
  ultimately show ?thesis by blast
qed

lemma filter_at_most_one:
  "distinct (map f ys) \<Longrightarrow> (\<And>y. P y \<Longrightarrow> f y = a) \<Longrightarrow> length (filter P ys) \<le> 1"
proof (induction ys)
  case Nil
  then show ?case by simp
next
  case (Cons y ys)
  show ?case
  proof (cases "P y")
    case True
    then have "f y = a" by (rule Cons.prems(2))
    have "\<not> P z" if "z \<in> set ys" for z
    proof
      assume "P z"
      then have "f z = f y" using \<open>f y = a\<close> Cons.prems(2) by simp
      with that Cons.prems(1) show False by (auto simp: image_iff)
    qed
    then have "filter P ys = []"
      by (simp add: filter_empty_conv)
    with True show ?thesis by simp
  next
    case False
    then show ?thesis using Cons by simp
  qed
qed

lemma join_rows_single:
  assumes "distinct (map (\<lambda>y. y ! ri) rrows)"
  shows "\<exists>z. join_rows li ri n rrows x = [x @ z]"
proof -
  have "length (filter (\<lambda>r. key_match (x ! li) (r ! ri)) rrows) \<le> 1"
    by (rule filter_at_most_one [OF assms, of _ "x ! li"]) (simp add: key_match_def)
  then show ?thesis
    by (cases "filter (\<lambda>r. key_match (x ! li) (r ! ri)) rrows")
       (auto simp: join_rows_def split: list.splits)
qed

lemma keys_concat_single:
  "(\<And>x. x \<in> set ls \<Longrightarrow> i < length x \<and> (\<exists>z. g x = [x @ z]))
     \<Longrightarrow> map (\<lambda>row. row ! i) (concat (map g ls)) = map (\<lambda>x. x ! i) ls"
proof (induction ls)
  case Nil
  then show ?case by simp
next
  case (Cons x ls)
  from Cons.prems [of x] obtain z where "i < length x" and "g x = [x @ z]"
    by auto
  then show ?case
    using Cons by (simp add: nth_append)
qed

lemma sort_by_names: "sort_by t k = Inr t' \<Longrightarrow> column_names t' = column_names t"
  using sort_by_Inr [of t k t'] by auto

lemma drop_index_0: "drop_index 0 (x # xs) = xs"
  by (simp add: drop_index_def)

lemma acc_invD:
  assumes "acc_inv s e tag t"
  shows "wf_table t" and "get_field_index (column_names t) tag = Some 0"
    and "column_names t \<noteq> []" and "column_names t ! 0 = tag"
    and "\<And>r. r \<in> set (rows t) \<Longrightarrow> in_date_range s e (r ! 0)"
    and "\<And>r. r \<in> set (rows t) \<Longrightarrow> 0 < length r"
proof -
  from assms show wf: "wf_table t" and i: "get_field_index (column_names t) tag = Some 0"
    by (simp_all add: acc_inv_def)
  from get_field_index_SomeD(1,2) [OF i] show ne: "column_names t \<noteq> []" and "column_names t ! 0 = tag"
    by auto
  fix r assume r: "r \<in> set (rows t)"
  with assms show "in_date_range s e (r ! 0)"
    by (simp add: acc_inv_def list_all_iff)
  from wf r ne show "0 < length r"
    by (simp add: wf_tableD)
qed

lemma join_Inr:
  assumes "join l r k sfx = Inr out"
  shows "\<exists>li ri. get_field_index (column_names l) k = Some li
           \<and> get_field_index (column_names r) k = Some ri
           \<and> column_names out =
               column_names l @
               map (\<lambda>n. if n \<in> set (column_names l) then n @ sfx else n)
                 (drop_index ri (column_names r))
           \<and> rows out =
               concat (map (join_rows li ri (length (drop_index ri (column_names r))) (rows r))
                         (rows l))"
  using assms by (auto simp: join_def Let_def split: option.splits)

lemma join_inv:
  assumes l: "acc_inv s e tag l" and r: "acc_inv s e tag r"
    and j: "join l r tag sfx = Inr out"
  shows "wf_table out" and "column_names out \<noteq> []" and "column_names out ! 0 = tag"
    and "list_all (\<lambda>row. in_date_range s e (row ! 0)) (rows out)"
    and "distinct (map (\<lambda>y. y ! 0) (rows r)) \<Longrightarrow>
           map (\<lambda>row. row ! 0) (rows out) = map (\<lambda>x. x ! 0) (rows l)"
proof -
  note L = acc_invD [OF l] and R = acc_invD [OF r]
  let ?n = "length (drop_index 0 (column_names r))"
  from join_Inr [OF j] L(2) R(2) have
    names: "column_names out =
       column_names l @
       map (\<lambda>n. if n \<in> set (column_names l) then n @ sfx else n) (drop_index 0 (column_names r))"
    and rows: "rows out = concat (map (join_rows 0 0 ?n (rows r)) (rows l))"
    by auto
  from names L(3) show "column_names out \<noteq> []"
    by simp
  from names L(3,4) show "column_names out ! 0 = tag"
    by (simp add: nth_append)
  have n: "?n = length (column_names r) - 1"
    using R(3) by (simp add: length_drop_index)
  have form: "\<exists>x z. x \<in> set (rows l) \<and> row = x @ z \<and> length z = ?n"
    if "row \<in> set (rows out)" for row
  proof -
    from that rows obtain x where x: "x \<in> set (rows l)" and "row \<in> set (join_rows 0 0 ?n (rows r) x)"
      by auto
    from join_rows_form [OF this(2)] obtain z where
      z: "row = x @ z" and alt: "z = replicate ?n Null \<or> (\<exists>y\<in>set (rows r). z = drop_index 0 y)"
      by blast
    from alt have "length z = ?n"
    proof
      assume "z = replicate ?n Null"
      then show ?thesis by simp
    next
      assume "\<exists>y\<in>set (rows r). z = drop_index 0 y"
      then obtain y where y: "y \<in> set (rows r)" and zy: "z = drop_index 0 y"
        by blast
      from R(6) [OF y] have "length (drop_index 0 y) = length y - 1"
        by (rule length_drop_index)
      with zy n wf_tableD [OF R(1) y] show ?thesis
        by simp
    qed
    with x z show ?thesis by blast
  qed
  show "wf_table out"
  proof (rule wf_tableI)
    fix row assume "row \<in> set (rows out)"
    from form [OF this] obtain x z where "x \<in> set (rows l)" and "row = x @ z" and "length z = ?n"
      by blast
    then show "length row = length (column_names out)"
      using names wf_tableD [OF L(1)] by simp
  qed
  show "list_all (\<lambda>row. in_date_range s e (row ! 0)) (rows out)"
    unfolding list_all_iff
  proof
    fix row assume "row \<in> set (rows out)"
    from form [OF this] obtain x z where x: "x \<in> set (rows l)" and "row = x @ z"
      by blast
    then show "in_date_range s e (row ! 0)"
      using L(5) [OF x] L(6) [OF x] by (simp add: nth_append)
  qed
  assume "distinct (map (\<lambda>y. y ! 0) (rows r))"
  then have "\<And>x. \<exists>z. join_rows 0 0 ?n (rows r) x = [x @ z]"
    by (rule join_rows_single)
  then show "map (\<lambda>row. row ! 0) (rows out) = map (\<lambda>x. x ! 0) (rows l)"
    unfolding rows using L(6) by (intro keys_concat_single) simp
qed

lemma sorted_stamps:
  assumes "sorted (map (\<lambda>r. sort_rank (r ! 0)) rs)"
    and "\<forall>r\<in>set rs. in_date_range s e (r ! 0)"
  shows "map (\<lambda>r. r ! 0) rs = map Timestamp (map (\<lambda>r. snd (sort_rank (r ! 0))) rs)"
    and "sorted (map (\<lambda>r. snd (sort_rank (r ! 0))) rs)"
proof -
  have ts: "r ! 0 = Timestamp (snd (sort_rank (r ! 0))) \<and> fst (sort_rank (r ! 0)) = 0"
    if "r \<in> set rs" for r
    using assms(2) that by (auto simp: in_date_range_iff)
  then show "map (\<lambda>r. r ! 0) rs = map Timestamp (map (\<lambda>r. snd (sort_rank (r ! 0))) rs)"
    by simp
  have "sorted_wrt (\<lambda>a b. sort_rank (a ! 0) \<le> sort_rank (b ! 0)) rs"
    using assms(1) by (simp add: sorted_map)
  then have "sorted_wrt (\<lambda>a b. snd (sort_rank (a ! 0)) \<le> snd (sort_rank (b ! 0))) rs"
  proof (rule sorted_wrt_mono_rel [rotated])
    fix a b assume "a \<in> set rs" and "b \<in> set rs"
      and le: "sort_rank (a ! 0) \<le> sort_rank (b ! 0)"
    with ts [of a] ts [of b] show "snd (sort_rank (a ! 0)) \<le> snd (sort_rank (b ! 0))"
      by (cases "sort_rank (a ! 0)"; cases "sort_rank (b ! 0)") auto
  qed
  then show "sorted (map (\<lambda>r. snd (sort_rank (r ! 0))) rs)"
    by (simp add: sorted_map)
qed

lemma sort_by_inv:
  assumes wf: "wf_table j" and ne: "column_names j \<noteq> []" and hd: "column_names j ! 0 = tag"
    and rng: "list_all (\<lambda>r. in_date_range s e (r ! 0)) (rows j)"
    and srt: "sort_by j tag = Inr t"
  shows "acc_inv s e tag t"
    and "sorted (map (\<lambda>r. sort_rank (r ! 0)) (rows t))"
    and "mset (rows t) = mset (rows j)"
proof -
  from sort_by_Inr [OF srt] obtain i where
    i: "get_field_index (column_names j) tag = Some i" and
    t: "t = j\<lparr>rows := sort_key (\<lambda>r. sort_rank (r ! i)) (rows j)\<rparr>"
    by blast
  have i0: "i = 0"
    using get_field_index_at_0 [OF i ne hd] .
  show "acc_inv s e tag t"
    using wf rng i by (simp add: acc_inv_def t i0 wf_table_def list_all_iff)
  show "sorted (map (\<lambda>r. sort_rank (r ! 0)) (rows t))"
    by (simp add: t i0)
  show "mset (rows t) = mset (rows j)"
    by (simp add: t)
qed

lemma drop_index_0_tl: "drop_index 0 y = tl y"
  by (simp add: drop_index_def drop_Suc)

lemma join_rows_out:
  assumes l: "acc_inv s e tag l" and r: "acc_inv s e tag r"
    and j: "join l r tag sfx = Inr out" and row: "row \<in> set (rows out)"
  shows "\<exists>x z. x \<in> set (rows l) \<and> row = x @ z
           \<and> (z = replicate (length (column_names r) - 1) Null \<or> (\<exists>y\<in>set (rows r). z = tl y))"
proof -
  note L = acc_invD [OF l] and R = acc_invD [OF r]
  let ?n = "length (drop_index 0 (column_names r))"
  from join_Inr [OF j] L(2) R(2) have
    rows: "rows out = concat (map (join_rows 0 0 ?n (rows r)) (rows l))"
    by auto
  have n: "?n = length (column_names r) - 1"
    using R(3) by (simp add: length_drop_index)
  from row rows obtain x where x: "x \<in> set (rows l)" and "row \<in> set (join_rows 0 0 ?n (rows r) x)"
    by auto
  from join_rows_form [OF this(2)] obtain z where
    "row = x @ z" and "z = replicate ?n Null \<or> (\<exists>y\<in>set (rows r). z = drop_index 0 y)"
    by blast
  then have "row = x @ z
      \<and> (z = replicate (length (column_names r) - 1) Null \<or> (\<exists>y\<in>set (rows r). z = tl y))"
    by (simp add: n drop_index_0_tl)
  with x show ?thesis
    by blast
qed

section \<open>The loop over the tickers\<close>

lemma data_acc_inv:
  assumes wf: "wf_table t" and d: "ticker_data s e tag f k t = Inr data"
    and i: "get_field_index (column_names data) tag = Some i"
  shows "acc_inv s e tag data"
proof -
  from i have "get_field_index (tag # [k]) tag = Some i"
    by (simp add: ticker_data_names [OF d])
  from get_field_index_first(1) [OF this] i have "get_field_index (column_names data) tag = Some 0"
    by simp
  with ticker_data_inv [OF wf d] show ?thesis
    by (simp add: acc_inv_def)
qed

lemma accumulate_Some:
  assumes "accumulate tag (Some res) data = Inr joined"
  shows "join res data tag ''_r'' = Inr joined \<or> join data res tag ''_r'' = Inr joined"
  using assms by (auto simp: accumulate_def split: if_splits)

lemma distinct_keys_mset:
  "mset rs' = mset rs \<Longrightarrow> distinct (map f rs') = distinct (map f rs)"
proof -
  assume "mset rs' = mset rs"
  then have "mset (map f rs') = mset (map f rs)"
    by simp
  then show ?thesis
    by (rule mset_eq_imp_distinct_iff)
qed

lemma step_inv:
  assumes wf: "wf_table t" and d: "ticker_data s e tag f k t = Inr data"
    and acc: "accumulate tag resopt data = Inr joined"
    and srt: "sort_by joined tag = Inr ordered"
    and inv: "\<And>res. resopt = Some res \<Longrightarrow> acc_inv s e tag res"
  shows "acc_inv s e tag ordered"
    and "sorted (map (\<lambda>r. sort_rank (r ! 0)) (rows ordered))"
    and "distinct (map (\<lambda>r. r ! 0) (rows data))
         \<Longrightarrow> (\<And>res. resopt = Some res \<Longrightarrow> distinct (map (\<lambda>r. r ! 0) (rows res)))
         \<Longrightarrow> distinct (map (\<lambda>r. r ! 0) (rows ordered))"
proof -
  have joined: "wf_table joined \<and> column_names joined \<noteq> [] \<and> column_names joined ! 0 = tag
      \<and> list_all (\<lambda>r. in_date_range s e (r ! 0)) (rows joined)
      \<and> (distinct (map (\<lambda>r. r ! 0) (rows data))
           \<longrightarrow> (\<forall>res. resopt = Some res \<longrightarrow> distinct (map (\<lambda>r. r ! 0) (rows res)))
           \<longrightarrow> distinct (map (\<lambda>r. r ! 0) (rows joined)))"
  proof (cases resopt)
    case None
    with acc have eq: "joined = data"
      by (simp add: accumulate_def combine_chunks_def)
    from sort_by_Inr [OF srt] obtain i where "get_field_index (column_names data) tag = Some i"
      unfolding eq by blast
    from data_acc_inv [OF wf d this] have a: "acc_inv s e tag data" .
    from acc_invD(1,3,4) [OF a] a show ?thesis
      by (simp add: eq acc_inv_def)
  next
    case (Some res)
    from inv [OF Some] have r: "acc_inv s e tag res" .
    from accumulate_Some [OF acc [unfolded Some]] show ?thesis
    proof
      assume j: "join res data tag ''_r'' = Inr joined"
      from join_Inr [OF j] obtain i where "get_field_index (column_names data) tag = Some i"
        by blast
      from data_acc_inv [OF wf d this] have a: "acc_inv s e tag data" .
      from join_inv [OF r a j] Some show ?thesis
        by simp
    next
      assume j: "join data res tag ''_r'' = Inr joined"
      from join_Inr [OF j] obtain i where "get_field_index (column_names data) tag = Some i"
        by blast
      from data_acc_inv [OF wf d this] have a: "acc_inv s e tag data" .
      from join_inv [OF a r j] Some show ?thesis
        by simp
    qed
  qed
  then have j: "wf_table joined" "column_names joined \<noteq> []" "column_names joined ! 0 = tag"
      "list_all (\<lambda>r. in_date_range s e (r ! 0)) (rows joined)"
    by simp_all
  note s = sort_by_inv [OF j srt]
  from s(1) show "acc_inv s e tag ordered" .
  from s(2) show "sorted (map (\<lambda>r. sort_rank (r ! 0)) (rows ordered))" .
  assume "distinct (map (\<lambda>r. r ! 0) (rows data))"
    and "\<And>res. resopt = Some res \<Longrightarrow> distinct (map (\<lambda>r. r ! 0) (rows res))"
  with joined have "distinct (map (\<lambda>r. r ! 0) (rows joined))"
    by blast
  then show "distinct (map (\<lambda>r. r ! 0) (rows ordered))"
    by (simp add: distinct_keys_mset [OF s(3)])
qed

lemma ticker_loop_inv:
  assumes "wf_dict items"
    and "ticker_loop s e tag f items resopt = Inr out"
    and "\<And>res. resopt = Some res \<Longrightarrow>
           acc_inv s e tag res \<and> sorted (map (\<lambda>r. sort_rank (r ! 0)) (rows res))"
    and "out = Some t"
  shows "acc_inv s e tag t \<and> sorted (map (\<lambda>r. sort_rank (r ! 0)) (rows t))"
  using assms
proof (induction items arbitrary: resopt)
  case Nil
  then show ?case by simp
next
  case (Cons item items)
  obtain k tst where item: "item = (k, tst)"
    by (cases item)
  from Cons.prems(1) have wf: "wf_table tst" and rest: "wf_dict items"
    by (simp_all add: wf_dict_def item)
  from Cons.prems(2) obtain data joined ordered where
    d: "ticker_data s e tag f k tst = Inr data" and
    acc: "accumulate tag resopt data = Inr joined" and
    srt: "sort_by joined tag = Inr ordered" and
    loop: "ticker_loop s e tag f items (Some ordered) = Inr out"
    by (auto simp: item split: sum.splits)
  have "acc_inv s e tag ordered \<and> sorted (map (\<lambda>r. sort_rank (r ! 0)) (rows ordered))"
    using step_inv(1,2) [OF wf d acc srt] Cons.prems(3) by blast
  then show ?case
    using Cons.IH [OF rest loop _ Cons.prems(4)] by simp
qed

lemma ticker_loop_distinct:
  assumes "wf_dict items" and "distinct_dates s e tag items"
    and "ticker_loop s e tag f items resopt = Inr out"
    and "\<And>res. resopt = Some res \<Longrightarrow>
           acc_inv s e tag res \<and> distinct (map (\<lambda>r. r ! 0) (rows res))"
    and "out = Some t"
  shows "distinct (map (\<lambda>r. r ! 0) (rows t))"
  using assms
proof (induction items arbitrary: resopt)
  case Nil
  then show ?case by simp
next
  case (Cons item items)
  obtain k tst where item: "item = (k, tst)"
    by (cases item)
  from Cons.prems(1) have wf: "wf_table tst" and rest: "wf_dict items"
    by (simp_all add: wf_dict_def item)
  from Cons.prems(3) obtain data joined ordered where
    d: "ticker_data s e tag f k tst = Inr data" and
    acc: "accumulate tag resopt data = Inr joined" and
    srt: "sort_by joined tag = Inr ordered" and
    loop: "ticker_loop s e tag f items (Some ordered) = Inr out"
    by (auto simp: item split: sum.splits)
  from ticker_data_rows [OF wf d] obtain ft where ft: "filtered_table s e tag tst = Inr ft"
    by blast
  from Cons.prems(2) ft have "distinct (map (\<lambda>r. r ! 0) (rows ft))" and dd: "distinct_dates s e tag items"
    by (simp_all add: distinct_dates_def item)
  then have dist: "distinct (map (\<lambda>r. r ! 0) (rows data))"
    by (simp add: ticker_data_keys [OF wf d ft])
  have "acc_inv s e tag ordered \<and> distinct (map (\<lambda>r. r ! 0) (rows ordered))"
    using step_inv(1) [OF wf d acc srt] step_inv(3) [OF wf d acc srt _ dist] Cons.prems(4)
    by blast
  then show ?case
    using Cons.IH [OF rest dd loop _ Cons.prems(5)] by simp
qed

lemma step_names:
  assumes d: "column_names data = [tag, k]"
    and acc: "accumulate tag (Some res) data = Inr joined"
    and names: "column_names res = tag # ns"
    and fresh: "k \<notin> set ns"
  shows "k \<noteq> tag"
    and "column_names joined =
           (if num_rows res > num_rows data then tag # ns @ [k] else tag # k # ns)"
proof -
  have both: "k \<noteq> tag \<and> column_names joined =
           (if num_rows res > num_rows data then tag # ns @ [k] else tag # k # ns)"
  proof (cases "num_rows res > num_rows data")
    case True
    with acc have j: "join res data tag ''_r'' = Inr joined"
      by (simp add: accumulate_def)
    from join_Inr [OF j] obtain li ri where
      li: "get_field_index (tag # ns) tag = Some li" and
      ri: "get_field_index (tag # [k]) tag = Some ri" and
      out: "column_names joined =
              column_names res @
              map (\<lambda>n. if n \<in> set (column_names res) then n @ ''_r'' else n)
                (drop_index ri (column_names data))"
      unfolding d names by auto
    from get_field_index_first [OF ri] have "ri = 0" and k: "k \<noteq> tag"
      by auto
    with out fresh True show ?thesis
      by (simp add: d names drop_index_0)
  next
    case False
    with acc have j: "join data res tag ''_r'' = Inr joined"
      by (simp add: accumulate_def)
    from join_Inr [OF j] obtain li ri where
      li: "get_field_index (tag # [k]) tag = Some li" and
      ri: "get_field_index (tag # ns) tag = Some ri" and
      out: "column_names joined =
              column_names data @
              map (\<lambda>n. if n \<in> set (column_names data) then n @ ''_r'' else n)
                (drop_index ri (column_names res))"
      unfolding d names by auto
    from get_field_index_first [OF li] have k: "k \<noteq> tag"
      by auto
    from get_field_index_first [OF ri] have "ri = 0" and tag: "tag \<notin> set ns"
      by auto
    have "map (\<lambda>n. if n \<in> set [tag, k] then n @ ''_r'' else n) ns = ns"
      using tag fresh by (intro map_idI) auto
    with out \<open>ri = 0\<close> k False show ?thesis
      by (simp add: d names drop_index_0)
  qed
  then show "k \<noteq> tag"
    and "column_names joined =
           (if num_rows res > num_rows data then tag # ns @ [k] else tag # k # ns)"
    by simp_all
qed

lemma ticker_loop_names:
  assumes "ticker_loop s e tag f items (Some res) = Inr out"
    and "column_names res = tag # ns"
    and "distinct (ns @ map fst items)"
  shows "\<exists>t ns'. out = Some t \<and> column_names t = tag # ns'
           \<and> mset ns' = mset (ns @ map fst items)"
  using assms
proof (induction items arbitrary: res ns)
  case Nil
  then show ?case by auto
next
  case (Cons item items)
  obtain k tst where item: "item = (k, tst)"
    by (cases item)
  from Cons.prems(1) obtain data joined ordered where
    d: "ticker_data s e tag f k tst = Inr data" and
    acc: "accumulate tag (Some res) data = Inr joined" and
    srt: "sort_by joined tag = Inr ordered" and
    loop: "ticker_loop s e tag f items (Some ordered) = Inr out"
    by (auto simp: item split: sum.splits)
  from Cons.prems(3) have fresh: "k \<notin> set ns"
    by (simp add: item)
  let ?ns = "if num_rows res > num_rows data then ns @ [k] else k # ns"
  have "column_names ordered = tag # ?ns"
    using step_names(2) [OF ticker_data_names [OF d] acc Cons.prems(2) fresh]
      sort_by_names [OF srt] by simp
  moreover have "distinct (?ns @ map fst items)"
    using Cons.prems(3) by (auto simp: item)
  ultimately obtain t ns' where "out = Some t" and "column_names t = tag # ns'"
    and "mset ns' = mset (?ns @ map fst items)"
    using Cons.IH [OF loop] by blast
  then show ?case
    by (auto simp: item)
qed

lemma null_columns_data:
  assumes "column_names data = [tag, k]" and "k \<in> E \<Longrightarrow> rows data = []"
  shows "null_columns E data"
  unfolding null_columns_def
proof (intro allI impI)
  fix i assume "0 < i" and "i < length (column_names data)" and "column_names data ! i \<in> E"
  with assms(1) have "i = 1" and "k \<in> E"
    by (auto simp: less_Suc_eq)
  with assms(2) show "\<forall>row\<in>set (rows data). row ! i = Null"
    by simp
qed

lemma null_columns_sort:
  assumes "null_columns E j" and "sort_by j tag = Inr t"
  shows "null_columns E t"
proof -
  from sort_by_Inr [OF assms(2)] obtain i where
    "t = j\<lparr>rows := sort_key (\<lambda>r. sort_rank (r ! i)) (rows j)\<rparr>"
    by blast
  then have "column_names t = column_names j" and "set (rows t) = set (rows j)"
    by simp_all
  with assms(1) show ?thesis
    by (simp add: null_columns_def)
qed

lemma step_null:
  assumes res: "acc_inv s e tag res" and dat: "acc_inv s e tag data"
    and d: "column_names data = [tag, k]"
    and names: "column_names res = tag # ns"
    and fresh: "k \<notin> set ns"
    and acc: "accumulate tag (Some res) data = Inr joined"
    and nres: "null_columns E res"
    and empty: "k \<in> E \<Longrightarrow> rows data = []"
  shows "null_columns E joined"
proof (cases "num_rows res > num_rows data")
  case True
  with acc have j: "join res data tag ''_r'' = Inr joined"
    by (simp add: accumulate_def)
  have jn: "column_names joined = tag # ns @ [k]"
    using step_names(2) [OF d acc names fresh] True by simp
  show ?thesis
    unfolding null_columns_def
  proof (intro allI impI ballI)
    fix i row
    assume i: "0 < i" "i < length (column_names joined)" "column_names joined ! i \<in> E"
      and row: "row \<in> set (rows joined)"
    from join_rows_out [OF res dat j row] obtain x z where
      x: "x \<in> set (rows res)" and eq: "row = x @ z" and
      z: "z = replicate (length (column_names data) - 1) Null \<or> (\<exists>y\<in>set (rows data). z = tl y)"
      by blast
    have lx: "length x = Suc (length ns)"
      using wf_tableD [OF acc_invD(1) [OF res] x] names by simp
    show "row ! i = Null"
    proof (cases "i < Suc (length ns)")
      case True
      then have "column_names res ! i = column_names joined ! i"
        by (simp add: names jn nth_append nth_Cons split: nat.splits)
      with nres i(1,3) True x have "x ! i = Null"
        by (simp add: null_columns_def names)
      with True lx eq show ?thesis
        by (simp add: nth_append)
    next
      case False
      with i(2) have ii: "i = Suc (length ns)"
        by (simp add: jn)
      then have "column_names joined ! i = k"
        by (simp add: jn nth_append)
      with i(3) empty have "rows data = []"
        by simp
      with z have "z = replicate (length (column_names data) - 1) Null"
        by auto
      then show ?thesis
        by (simp add: eq ii lx d nth_append)
    qed
  qed
next
  case False
  with acc have j: "join data res tag ''_r'' = Inr joined"
    by (simp add: accumulate_def)
  have jn: "column_names joined = tag # k # ns"
    using step_names(2) [OF d acc names fresh] False by simp
  show ?thesis
    unfolding null_columns_def
  proof (intro allI impI ballI)
    fix i row
    assume i: "0 < i" "i < length (column_names joined)" "column_names joined ! i \<in> E"
      and row: "row \<in> set (rows joined)"
    from join_rows_out [OF dat res j row] obtain x z where
      x: "x \<in> set (rows data)" and eq: "row = x @ z" and
      z: "z = replicate (length (column_names res) - 1) Null \<or> (\<exists>y\<in>set (rows res). z = tl y)"
      by blast
    have lx: "length x = 2"
      using wf_tableD [OF acc_invD(1) [OF dat] x] d by simp
    have "i \<noteq> 1"
    proof
      assume "i = 1"
      then have "column_names joined ! i = k"
        by (simp add: jn)
      with i(3) empty x show False
        by simp
    qed
    with i(1) obtain m where m: "i = Suc (Suc m)"
      by (cases i; cases "i - 1") auto
    with i(2) have mlt: "m < length ns"
      by (simp add: jn)
    have name: "column_names res ! Suc m \<in> E"
      using i(3) by (simp add: m jn names)
    from z show "row ! i = Null"
    proof
      assume "z = replicate (length (column_names res) - 1) Null"
      with mlt show ?thesis
        by (simp add: eq m lx names nth_append)
    next
      assume "\<exists>y\<in>set (rows res). z = tl y"
      then obtain y where y: "y \<in> set (rows res)" and zy: "z = tl y"
        by blast
      have ly: "length y = Suc (length ns)"
        using wf_tableD [OF acc_invD(1) [OF res] y] names by simp
      from nres name mlt y have "y ! Suc m = Null"
        by (simp add: null_columns_def names)
      with ly mlt show ?thesis
        by (simp add: eq m lx zy nth_append nth_tl)
    qed
  qed
qed

lemma get_field_index_distinct:
  assumes "distinct ns" and "n \<in> set ns"
  shows "\<exists>i. get_field_index ns n = Some i"
proof -
  let ?fs = "filter (\<lambda>i. ns ! i = n) [0..<length ns]"
  from assms(2) obtain j where j: "j < length ns" "ns ! j = n"
    by (auto simp: in_set_conv_nth)
  have "set ?fs = {j}"
    using j assms(1) by (auto simp: nth_eq_iff_index_eq)
  moreover have "distinct ?fs"
    by simp
  ultimately have "length ?fs = 1"
    using distinct_card [of ?fs] by simp
  then obtain x where "?fs = [x]"
    by (cases ?fs) auto
  then show ?thesis
    by (simp add: get_field_index_def)
qed

lemma map_all_Null:
  "(\<And>x. x \<in> set xs \<Longrightarrow> f x = c) \<Longrightarrow> map f xs = replicate (length xs) c"
  by (induction xs) auto

lemma accumulate_data_inv:
  assumes wf: "wf_table t" and d: "ticker_data s e tag f k t = Inr data"
    and acc: "accumulate tag (Some res) data = Inr joined"
  shows "acc_inv s e tag data"
proof -
  from accumulate_Some [OF acc] obtain i where "get_field_index (column_names data) tag = Some i"
    using join_Inr [of res data tag "''_r''" joined] join_Inr [of data res tag "''_r''" joined]
    by blast
  from data_acc_inv [OF wf d this] show ?thesis .
qed

lemma no_rows_data:
  assumes wf: "wf_table t" and d: "ticker_data s e tag f k t = Inr data"
    and "no_rows_in_range s e tag t"
  shows "rows data = []"
  using ticker_data_rows [OF wf d] assms(3) by (auto simp: no_rows_in_range_def)

lemma ticker_loop_null:
  assumes "wf_dict items"
    and "ticker_loop s e tag f items (Some res) = Inr out"
    and "acc_inv s e tag res"
    and "column_names res = tag # ns"
    and "distinct (ns @ map fst items)"
    and "null_columns E res"
    and "\<And>k tst. (k, tst) \<in> set items \<Longrightarrow> k \<in> E \<Longrightarrow> no_rows_in_range s e tag tst"
  shows "\<exists>t. out = Some t \<and> null_columns E t"
  using assms
proof (induction items arbitrary: res ns)
  case Nil
  then show ?case by auto
next
  case (Cons item items)
  obtain k tst where item: "item = (k, tst)"
    by (cases item)
  from Cons.prems(1) have wf: "wf_table tst" and rest: "wf_dict items"
    by (simp_all add: wf_dict_def item)
  from Cons.prems(2) obtain data joined ordered where
    d: "ticker_data s e tag f k tst = Inr data" and
    acc: "accumulate tag (Some res) data = Inr joined" and
    srt: "sort_by joined tag = Inr ordered" and
    loop: "ticker_loop s e tag f items (Some ordered) = Inr out"
    by (auto simp: item split: sum.splits)
  from Cons.prems(5) have fresh: "k \<notin> set ns"
    by (simp add: item)
  let ?ns = "if num_rows res > num_rows data then ns @ [k] else k # ns"
  have names: "column_names ordered = tag # ?ns"
    using step_names(2) [OF ticker_data_names [OF d] acc Cons.prems(4) fresh]
      sort_by_names [OF srt] by simp
  have dist: "distinct (?ns @ map fst items)"
    using Cons.prems(5) by (auto simp: item)
  have inv: "acc_inv s e tag ordered"
    using step_inv(1) [OF wf d acc srt] Cons.prems(3) by simp
  have empty: "k \<in> E \<Longrightarrow> rows data = []"
    using no_rows_data [OF wf d] Cons.prems(7) [of k tst] by (simp add: item)
  have "null_columns E joined"
    using step_null [OF Cons.prems(3) accumulate_data_inv [OF wf d acc] ticker_data_names [OF d]
        Cons.prems(4) fresh acc Cons.prems(6)] empty by blast
  then have nul: "null_columns E ordered"
    using srt by (rule null_columns_sort)
  have later: "\<And>k tst. (k, tst) \<in> set items \<Longrightarrow> k \<in> E \<Longrightarrow> no_rows_in_range s e tag tst"
    using Cons.prems(7) by (auto simp: item)
  show ?case
    using Cons.IH [OF rest loop inv names dist nul later] .
qed

section \<open>The filter comes before the joins\<close>










section \<open>No ticker\<close>

lemma data_creator_no_tickers:
  "data_creator s e tag [] fs = Inr (map (\<lambda>f. (f, None)) (rev (remdups (rev fs))))"
  using feature_loop_no_tickers [of s e tag fs "[]"] by (simp add: data_creator_def)

section \<open>The claims\<close>

text \<open>
  Claim C1 fails on the code. In scenario A of the specification, \<open>AAA\<close> has the 2nd and
  the 3rd of January and \<open>BBB\<close> the 3rd and the 6th, and the range holds all of them. The
  two tables have as many rows, so \<open>BBB\<close> is the left side of the join, and the 2nd, which
  only \<open>AAA\<close> has, is not in the result.
\<close>

theorem scenario_a_drops_a_date:
  "data_creator 18262 18271 ''m_date'' [(''AAA'', AAA), (''BBB'', BBB)] [''price''] =
     Inr [(''price'',
           Some \<lparr>column_names = [''m_date'', ''BBB'', ''AAA''],
                 rows = [[Timestamp 1578009600000, Value 20, Value 11],
                         [Timestamp 1578268800000, Value 21, Null]]\<rparr>)]"
  by code_simp

text \<open>
  Claim C2 fails on the code. The same two tables give the dates of the 3rd and the
  6th when \<open>AAA\<close> comes first, and the dates of the 2nd and the 3rd when \<open>BBB\<close> comes
  first.
\<close>

theorem ticker_order_changes_rows:
  "data_creator 18262 18271 ''m_date'' [(''AAA'', AAA), (''BBB'', BBB)] [''price''] =
     Inr [(''price'',
           Some \<lparr>column_names = [''m_date'', ''BBB'', ''AAA''],
                 rows = [[Timestamp 1578009600000, Value 20, Value 11],
                         [Timestamp 1578268800000, Value 21, Null]]\<rparr>)]
   \<and> data_creator 18262 18271 ''m_date'' [(''BBB'', BBB), (''AAA'', AAA)] [''price''] =
     Inr [(''price'',
           Some \<lparr>column_names = [''m_date'', ''AAA'', ''BBB''],
                 rows = [[Timestamp 1577923200000, Value 10, Null],
                         [Timestamp 1578009600000, Value 11, Value 20]]\<rparr>)]"
  by code_simp

text \<open>
  Claim C3 fails on the code. For the projected tables of \<open>AAA\<close> and \<open>BBB\<close>, the branch of
  line 67 keeps the dates of the accumulated table, the branch of line 74 the dates of
  the new table, and the outer join has three rows: neither branch gives it, and the two
  differ.
\<close>

theorem join_branches_differ:
  "ticker_data 18262 18271 ''m_date'' ''price'' ''AAA'' AAA = Inr AAA_data
   \<and> ticker_data 18262 18271 ''m_date'' ''price'' ''BBB'' BBB = Inr BBB_data
   \<and> join AAA_data BBB_data ''m_date'' ''_r'' =
       Inr \<lparr>column_names = [''m_date'', ''AAA'', ''BBB''],
            rows = [[Timestamp 1577923200000, Value 10, Null],
                    [Timestamp 1578009600000, Value 11, Value 20]]\<rparr>
   \<and> join BBB_data AAA_data ''m_date'' ''_r'' =
       Inr \<lparr>column_names = [''m_date'', ''BBB'', ''AAA''],
            rows = [[Timestamp 1578009600000, Value 20, Value 11],
                    [Timestamp 1578268800000, Value 21, Null]]\<rparr>
   \<and> full_outer_join_spec AAA_data BBB_data ''m_date'' ''_r'' =
       Inr \<lparr>column_names = [''m_date'', ''AAA'', ''BBB''],
            rows = [[Timestamp 1577923200000, Value 10, Null],
                    [Timestamp 1578009600000, Value 11, Value 20],
                    [Timestamp 1578268800000, Null, Value 21]]\<rparr>"
  by code_simp

text \<open>
  Claim C4, as the code has it. The loop ends with a sort on the date column and removes
  no row: in every table that \<^verbatim>\<open>data_creator\<close> returns, the date column holds timestamps
  in ascending order; when no ticker has two rows inside the range on the same date,
  the order is strict, so no date is repeated.
\<close>

theorem date_column_ascending:
  assumes "wf_dict dict"
    and "data_creator s e tag dict fs = Inr m"
    and "(f, Some t) \<in> set m"
  shows "\<exists>ds. column t tag = Inr (map Timestamp ds) \<and> sorted ds
           \<and> (distinct_dates s e tag dict \<longrightarrow> sorted_wrt (<) ds)"
proof -
  have loop: "ticker_loop s e tag f dict None = Inr (Some t)"
    using feature_loop_values [of s e tag dict fs "[]" m f "Some t"] assms(2,3)
    by (simp add: data_creator_def)
  from ticker_loop_inv [OF assms(1) loop] have
    inv: "acc_inv s e tag t" and srt: "sorted (map (\<lambda>r. sort_rank (r ! 0)) (rows t))"
    by simp_all
  let ?ds = "map (\<lambda>r. snd (sort_rank (r ! 0))) (rows t)"
  have "\<forall>r\<in>set (rows t). in_date_range s e (r ! 0)"
    using acc_invD(5) [OF inv] by blast
  note st = sorted_stamps [OF srt this]
  have col: "column t tag = Inr (map Timestamp ?ds)"
    using acc_invD(2) [OF inv] st(1) by (simp add: column_def)
  have "sorted_wrt (<) ?ds" if "distinct_dates s e tag dict"
  proof -
    have "distinct (map (\<lambda>r. r ! 0) (rows t))"
      using ticker_loop_distinct [OF assms(1) that loop] by simp
    then have "distinct ?ds"
      unfolding st(1) by (metis distinct_map)
    with st(2) show ?thesis
      by (simp add: strict_sorted_iff)
  qed
  with col st(2) show ?thesis
    by blast
qed

text \<open>The theorem at the two tables of scenario A.\<close>

theorem date_column_ascending_witness:
  "wf_dict [(''AAA'', AAA), (''BBB'', BBB)]
   \<and> distinct_dates 18262 18271 ''m_date'' [(''AAA'', AAA), (''BBB'', BBB)]
   \<and> data_creator 18262 18271 ''m_date'' [(''AAA'', AAA), (''BBB'', BBB)] [''price''] =
       Inr [(''price'',
             Some \<lparr>column_names = [''m_date'', ''BBB'', ''AAA''],
                   rows = [[Timestamp 1578009600000, Value 20, Value 11],
                           [Timestamp 1578268800000, Value 21, Null]]\<rparr>)]
   \<and> column \<lparr>column_names = [''m_date'', ''BBB'', ''AAA''],
               rows = [[Timestamp 1578009600000, Value 20, Value 11],
                       [Timestamp 1578268800000, Value 21, Null]]\<rparr> ''m_date'' =
       Inr (map Timestamp [1578009600000, 1578268800000] :: int cell list)
   \<and> sorted_wrt (<) [1578009600000, 1578268800000 :: int]"
proof -
  let ?D = "[(''AAA'', AAA), (''BBB'', BBB)]"
  let ?T = "\<lparr>column_names = [''m_date'', ''BBB'', ''AAA''],
             rows = [[Timestamp 1578009600000, Value 20, Value 11],
                     [Timestamp 1578268800000, Value (21::int), Null]]\<rparr>"
  have wf: "wf_dict ?D"
    by code_simp
  have dd: "distinct_dates 18262 18271 ''m_date'' ?D"
    by code_simp
  have run: "data_creator 18262 18271 ''m_date'' ?D [''price''] = Inr [(''price'', Some ?T)]"
    by code_simp
  have col: "column ?T ''m_date'' = Inr (map Timestamp [1578009600000, 1578268800000])"
    by code_simp
  have "(''price'', Some ?T) \<in> set [(''price'', Some ?T)]"
    by simp
  from date_column_ascending [OF wf run this] dd obtain ds where
    "column ?T ''m_date'' = Inr (map Timestamp ds)" and "sorted_wrt (<) ds"
    by blast
  with col have "sorted_wrt (<) [1578009600000, 1578268800000 :: int]"
    by (auto simp: map_eq_Cons_conv)
  with wf dd run col show ?thesis
    by simp
qed

text \<open>
  Claim C4 as it is written fails: a ticker whose table has the 2nd of January twice
  gives an output with the 2nd of January twice.
\<close>

theorem duplicate_dates_kept:
  "data_creator 18262 18271 ''m_date'' [(''DUP'', DUP)] [''price''] =
     Inr [(''price'',
           Some \<lparr>column_names = [''m_date'', ''DUP''],
                 rows = [[Timestamp 1577923200000, Value 10],
                         [Timestamp 1577923200000, Value 11]]\<rparr>)]"
  by code_simp




text \<open>
  Claim C6 fails on the code. With the tickers \<open>AAA\<close>, \<open>BBB\<close> and \<open>CCC\<close> in this order,
  the 2nd of January is lost when \<open>BBB\<close> is joined and comes back with \<open>CCC\<close>: the row of
  the 2nd has null in the column \<open>AAA\<close>, and the table of \<open>AAA\<close> has the value 10 on
  that day.
\<close>

theorem dropped_date_loses_value:
  "data_creator 18262 18271 ''m_date'' [(''AAA'', AAA), (''BBB'', BBB), (''CCC'', CCC)] [''price''] =
     Inr [(''price'',
           Some \<lparr>column_names = [''m_date'', ''CCC'', ''BBB'', ''AAA''],
                 rows = [[Timestamp 1577923200000, Value 30, Null, Null],
                         [Timestamp 1578528000000, Value 31, Null, Null]]\<rparr>)]
   \<and> filtered_table 18262 18271 ''m_date'' AAA =
       Inr \<lparr>column_names = [''m_date'', ''price''],
            rows = [[Timestamp 1577923200000, Value 10], [Timestamp 1578009600000, Value 11]]\<rparr>"
  by code_simp

text \<open>
  Claim C7, as the code has it. With at least one ticker, every table that
  \<^verbatim>\<open>data_creator\<close> returns has the date column first and then one column for each key of
  the mapping, each key once; the order of the ticker columns is some arrangement of
  the keys. A ticker with no row inside the range still has its column, and the column
  is null in every row.
\<close>

theorem columns_are_date_then_tickers:
  assumes "wf_dict dict" and "distinct (map fst dict)" and "dict \<noteq> []"
    and "data_creator s e tag dict fs = Inr m"
    and "(f, r) \<in> set m"
  shows "\<exists>t ns. r = Some t \<and> column_names t = tag # ns \<and> mset ns = mset (map fst dict)
           \<and> (\<forall>(k, tst)\<in>set dict. no_rows_in_range s e tag tst
                 \<longrightarrow> column t k = Inr (replicate (num_rows t) Null))"
proof -
  let ?E = "{k. \<exists>tst. (k, tst) \<in> set dict \<and> no_rows_in_range s e tag tst}"
  have E: "no_rows_in_range s e tag tst" if "(k, tst) \<in> set dict" and "k \<in> ?E" for k tst
    using that assms(2) by (auto dest: eq_key_imp_eq_value)
  have loop: "ticker_loop s e tag f dict None = Inr r"
    using feature_loop_values [of s e tag dict fs "[]" m f r] assms(4,5)
    by (simp add: data_creator_def)
  from assms(3) obtain k0 tst0 items where dict: "dict = (k0, tst0) # items"
    by (cases dict) auto
  from assms(1) have wf0: "wf_table tst0" and wf: "wf_dict items"
    by (simp_all add: wf_dict_def dict)
  from loop obtain data ordered where
    d: "ticker_data s e tag f k0 tst0 = Inr data" and
    acc: "accumulate tag None data = Inr data" and
    srt: "sort_by data tag = Inr ordered" and
    rest: "ticker_loop s e tag f items (Some ordered) = Inr r"
    by (auto simp: dict accumulate_def combine_chunks_def split: sum.splits)
  have names0: "column_names ordered = tag # [k0]"
    using sort_by_names [OF srt] ticker_data_names [OF d] by simp
  have dist0: "distinct ([k0] @ map fst items)"
    using assms(2) by (simp add: dict)
  have inv0: "acc_inv s e tag ordered"
    using step_inv(1) [OF wf0 d acc srt] by simp
  have "k0 \<in> ?E \<Longrightarrow> rows data = []"
    using no_rows_data [OF wf0 d] E [of k0 tst0] by (simp add: dict)
  then have "null_columns ?E data"
    using ticker_data_names [OF d] by (intro null_columns_data) auto
  then have nul0: "null_columns ?E ordered"
    using srt by (rule null_columns_sort)
  from ticker_loop_names [OF rest names0 dist0] obtain t ns where
    t: "r = Some t" and names: "column_names t = tag # ns" and
    ms: "mset ns = mset (map fst dict)"
    by (auto simp: dict)
  have inv: "acc_inv s e tag t"
    using ticker_loop_inv [OF wf rest _ t] inv0 step_inv(2) [OF wf0 d acc srt] by simp
  have nul: "null_columns ?E t"
    using ticker_loop_null [OF wf rest inv0 names0 dist0 nul0] E t by (auto simp: dict)
  have dns: "distinct ns"
    using ms assms(2) mset_eq_imp_distinct_iff by blast
  have tag: "tag \<notin> set ns"
    using get_field_index_first(2) [of tag ns 0] acc_invD(2) [OF inv] by (simp add: names)
  have "column t k = Inr (replicate (num_rows t) Null)"
    if k: "(k, tst) \<in> set dict" and no: "no_rows_in_range s e tag tst" for k tst
  proof -
    from k have "k \<in> set (map fst dict)"
      by force
    then have kin: "k \<in> set ns"
      using ms mset_eq_setD by blast
    with dns tag obtain i where i: "get_field_index (column_names t) k = Some i"
      using get_field_index_distinct [of "tag # ns" k] by (auto simp: names)
    from get_field_index_SomeD(1,2) [OF i] kin tag have "0 < i" and "i < length (column_names t)"
      and "column_names t ! i \<in> ?E"
      using k no by (auto simp: names nth_Cons split: nat.splits)
    with nul have "\<And>row. row \<in> set (rows t) \<Longrightarrow> row ! i = Null"
      by (simp add: null_columns_def)
    then have "map (\<lambda>row. row ! i) (rows t) = replicate (length (rows t)) Null"
      by (rule map_all_Null)
    with i show ?thesis
      by (simp add: column_def num_rows_def)
  qed
  with t names ms show ?thesis
    by blast
qed

text \<open>
  The theorem at the tickers \<open>AAA\<close> and \<open>EEE\<close>, the second with no row inside the
  range.
\<close>

theorem columns_are_date_then_tickers_witness:
  "wf_dict [(''AAA'', AAA), (''EEE'', OUT)]
   \<and> distinct (map fst [(''AAA'', AAA), (''EEE'', OUT)])
   \<and> [(''AAA'', AAA), (''EEE'', OUT)] \<noteq> []
   \<and> no_rows_in_range 18262 18271 ''m_date'' OUT
   \<and> data_creator 18262 18271 ''m_date'' [(''AAA'', AAA), (''EEE'', OUT)] [''price''] =
       Inr [(''price'',
             Some \<lparr>column_names = [''m_date'', ''AAA'', ''EEE''],
                   rows = [[Timestamp 1577923200000, Value 10, Null],
                           [Timestamp 1578009600000, Value 11, Null]]\<rparr>)]
   \<and> mset [''AAA'', ''EEE''] = mset (map fst [(''AAA'', AAA), (''EEE'', OUT)])
   \<and> column \<lparr>column_names = [''m_date'', ''AAA'', ''EEE''],
               rows = [[Timestamp 1577923200000, Value 10, Null],
                       [Timestamp 1578009600000, Value 11, Null]]\<rparr> ''EEE'' =
       Inr (replicate 2 (Null :: int cell))"
proof -
  let ?D = "[(''AAA'', AAA), (''EEE'', OUT)]"
  let ?T = "\<lparr>column_names = [''m_date'', ''AAA'', ''EEE''],
             rows = [[Timestamp 1577923200000, Value 10, Null],
                     [Timestamp 1578009600000, Value (11::int), Null]]\<rparr>"
  have wf: "wf_dict ?D"
    by code_simp
  have d: "distinct (map fst ?D)"
    by simp
  have ne: "?D \<noteq> []"
    by simp
  have no: "no_rows_in_range 18262 18271 ''m_date'' OUT"
    by code_simp
  have run: "data_creator 18262 18271 ''m_date'' ?D [''price''] = Inr [(''price'', Some ?T)]"
    by code_simp
  have n: "num_rows ?T = 2"
    by (simp add: num_rows_def)
  have "(''price'', Some ?T) \<in> set [(''price'', Some ?T)]"
    by simp
  from columns_are_date_then_tickers [OF wf d ne run this] obtain ns where
    "column_names ?T = ''m_date'' # ns" and "mset ns = mset (map fst ?D)"
    and nulls: "\<forall>(k, tst)\<in>set ?D. no_rows_in_range 18262 18271 ''m_date'' tst
                 \<longrightarrow> column ?T k = Inr (replicate (num_rows ?T) Null)"
    by auto
  then have "mset [''AAA'', ''EEE''] = mset (map fst ?D)"
    by simp
  moreover from nulls no have "column ?T ''EEE'' = Inr (replicate 2 Null)"
    unfolding n by simp
  ultimately show ?thesis
    using wf d ne no run by simp
qed

text \<open>
  Claim C7 as it is written fails: the mapping has the keys \<open>AAA\<close> and \<open>ZZZ\<close> in this
  order and the same dates under both, and the output has the column \<open>ZZZ\<close> before the
  column \<open>AAA\<close>.
\<close>

theorem column_order_counterexample:
  "data_creator 18262 18271 ''m_date'' [(''AAA'', AAA), (''ZZZ'', AAA)] [''price''] =
     Inr [(''price'',
           Some \<lparr>column_names = [''m_date'', ''ZZZ'', ''AAA''],
                 rows = [[Timestamp 1577923200000, Value 10, Value 10],
                         [Timestamp 1578009600000, Value 11, Value 11]]\<rparr>)]"
  by code_simp

text \<open>
  Claim C8, as the code has it. The function has no handler around a feature's assembly:
  it returns a mapping exactly when the assembly of every requested feature succeeds,
  and when it fails, it fails with the error of one of the requested features. So one
  failing feature leaves no result for any feature.
\<close>

theorem one_failure_fails_all:
  "((\<exists>m. data_creator s e tag d fs = Inr m) \<longleftrightarrow>
      (\<forall>f\<in>set fs. \<exists>r. ticker_loop s e tag f d None = Inr r))
   \<and> (\<forall>err. data_creator s e tag d fs = Inl err \<longrightarrow>
        (\<exists>f\<in>set fs. ticker_loop s e tag f d None = Inl err))"
  unfolding data_creator_def using feature_loop_Inr_iff feature_loop_Inl by blast

text \<open>
  The theorem at one ticker whose table has the column \<open>price\<close> and no column \<open>volume\<close>:
  the assembly of \<open>volume\<close> fails, so the call fails.
\<close>

theorem one_failure_fails_all_witness:
  "ticker_loop 18262 18271 ''m_date'' ''volume'' [(''AAA'', AAA)] None = Inl KeyError
   \<and> isl (data_creator 18262 18271 ''m_date'' [(''AAA'', AAA)] [''price'', ''volume''])"
proof -
  have v: "ticker_loop 18262 18271 ''m_date'' ''volume'' [(''AAA'', AAA)] None = Inl KeyError"
    by code_simp
  have "\<not> (\<exists>m. data_creator 18262 18271 ''m_date'' [(''AAA'', AAA)] [''price'', ''volume''] = Inr m)"
    using one_failure_fails_all [of 18262 18271 "''m_date''" "[(''AAA'', AAA)]" "[''price'', ''volume'']"] v
    by auto
  then have "isl (data_creator 18262 18271 ''m_date'' [(''AAA'', AAA)] [''price'', ''volume''])"
    by (cases "data_creator 18262 18271 ''m_date'' [(''AAA'', AAA)] [''price'', ''volume'']") auto
  with v show ?thesis
    by simp
qed

text \<open>
  Claim C8 as it is written fails: with one ticker and the features \<open>price\<close> and
  \<open>volume\<close>, the assembly of \<open>price\<close> succeeds, and the call returns the error of
  \<open>volume\<close> and no table for \<open>price\<close>.
\<close>

theorem partial_success_counterexample:
  "ticker_loop 18262 18271 ''m_date'' ''price'' [(''AAA'', AAA)] None = Inr (Some AAA_data)
   \<and> data_creator 18262 18271 ''m_date'' [(''AAA'', AAA)] [''price'', ''volume''] = Inl KeyError"
  by code_simp

text \<open>
  Claim C9 fails on the code. With no ticker the loop over the tickers does not run and
  the result of a feature stays \<open>None\<close>, the value it has before the first ticker: the
  call returns, so it is no error, and what it stores for \<open>price\<close> is \<open>None\<close>, where
  the signature and the docstring of the function promise a table.
\<close>

theorem no_tickers_returns_None:
  "data_creator 18262 18271 ''m_date'' ([] :: (string \<times> int table) list) [''price''] =
     Inr [(''price'', None)]"
  by code_simp

text \<open>
  Claim C10. When \<^verbatim>\<open>data_creator\<close> returns, the keys of the mapping are the requested
  feature names, each once, in the order of their first occurrence; no other key
  appears; and the table stored under a name is the one the loop over the tickers
  computes for that name, so a repeated name overwrites its entry with the same table.
\<close>

theorem keys_are_requested_features:
  assumes "data_creator s e tag d fs = Inr m"
  shows "map fst m = rev (remdups (rev fs)) \<and> distinct (map fst m) \<and> set (map fst m) = set fs
         \<and> (\<forall>(f, r)\<in>set m. ticker_loop s e tag f d None = Inr r)"
proof -
  have keys: "map fst m = rev (remdups (rev fs))"
    using feature_loop_keys [of s e tag d fs "[]" m "[]"] assms by (simp add: data_creator_def)
  have "\<And>f r. (f, r) \<in> set m \<Longrightarrow> ticker_loop s e tag f d None = Inr r"
    using feature_loop_values [of s e tag d fs "[]" m] assms by (simp add: data_creator_def)
  with keys show ?thesis
    by auto
qed

text \<open>The theorem at one ticker and the feature \<open>price\<close> requested twice.\<close>

theorem keys_are_requested_features_witness:
  "data_creator 18262 18271 ''m_date'' [(''AAA'', AAA)] [''price'', ''price''] =
     Inr [(''price'', Some AAA_data)]
   \<and> map fst [(''price'', Some AAA_data)] = rev (remdups (rev [''price'', ''price'']))
   \<and> ticker_loop 18262 18271 ''m_date'' ''price'' [(''AAA'', AAA)] None = Inr (Some AAA_data)"
proof -
  have h: "data_creator 18262 18271 ''m_date'' [(''AAA'', AAA)] [''price'', ''price''] =
     Inr [(''price'', Some AAA_data)]"
    by code_simp
  from keys_are_requested_features [OF h] h show ?thesis
    by simp
qed

end
